theory Spec2Isabelle
  imports Main
begin

section \<open>String utilities of libdispatch/dutil.c\<close>

text \<open>
  The functions of \<^verbatim>\<open>dutil.c\<close> that transform text: the backslash escaper and
  unescaper, the XML entity escaper, the delimiter splitter, the segment joiner and the
  mode-tag query on a URI fragment.

  Conventions of the embedding.
  \<^item> A C string (\<^verbatim>\<open>const char*\<close>) is the list of its bytes before the terminating
    NUL; a pointer that may be \<^verbatim>\<open>NULL\<close> is an \<open>option\<close>. A pointer into a string
    is the list of the bytes from the pointer to the terminator, so \<^verbatim>\<open>*p == 0\<close> is
    \<open>p = []\<close> and \<^verbatim>\<open>p++\<close> is the tail.
  \<^item> \<^verbatim>\<open>NC_backslashUnescape\<close> can step over the terminator, so its scan runs on the
    char array itself (the bytes of the string followed by the NUL), and a read outside
    that array is a result of its own.
  \<^item> \<^verbatim>\<open>malloc\<close> can fail. Each function takes an allocator: \<open>alloc k\<close> says whether
    the \<open>k\<close>-th allocation request of the call (counted from 0) is granted.
  \<^item> An output parameter (\<^verbatim>\<open>T** outp\<close>) is \<open>None\<close> when the pointer is NULL and
    \<open>Some v\<close> when it points to a variable of the caller holding \<open>v\<close>; the function
    returns the status together with the parameter as it is afterwards.
\<close>

subsection \<open>Bytes, status codes, allocation\<close>

abbreviation NUL :: char where
  "NUL \<equiv> CHR 0x00"

abbreviation backslash :: char where
  "backslash \<equiv> CHR 0x5C"

text \<open>The status codes of \<^verbatim>\<open>netcdf.h\<close> that \<^verbatim>\<open>dutil.c\<close> returns from these functions.\<close>

datatype nc_status = NC_NOERR | NC_EINVAL | NC_ENOMEM | NC_EURL

type_synonym allocator = "nat \<Rightarrow> bool"

text \<open>A read through a pointer that has left the array it points into.\<close>

datatype fault = ReadPastEnd

subsection \<open>NC\_backslashEscape\<close>

text \<open>
  \<^verbatim>\<open>for(p=s,q=escaped;*p;p++) { char c = *p; switch (c) { case '\\': case '/': case '.':
  case '@': *q++ = '\\'; *q++ = '\\'; break; default: *q++ = c; break; } }\<close>

  \<open>p\<close> is the read pointer, \<open>q\<close> the bytes written so far.
\<close>

fun backslashEscape_loop :: "string \<Rightarrow> string \<Rightarrow> string" where
  "backslashEscape_loop [] q = q"
| "backslashEscape_loop (c # p) q =
     (if c = backslash \<or> c = CHR ''/'' \<or> c = CHR ''.'' \<or> c = CHR ''@''
      then backslashEscape_loop p (q @ [backslash, backslash])
      else backslashEscape_loop p (q @ [c]))"

definition NC_backslashEscape :: "allocator \<Rightarrow> string \<Rightarrow> string option" where
  "NC_backslashEscape alloc s =
     (if \<not> alloc 0 then None
      else Some (backslashEscape_loop s []))"

subsection \<open>NC\_backslashUnescape\<close>

text \<open>
  \<^verbatim>\<open>for(p=esc,q=s;*p;) { switch (*p) { case '\\': p++; /* fall thru */
  default: *q++ = *p++; break; } }\<close>

  Here \<open>p\<close> is the rest of the char array, terminator included: the empty list is the
  pointer one past the array, and reading through it is \<open>ReadPastEnd\<close>.
\<close>

fun backslashUnescape_loop :: "string \<Rightarrow> string \<Rightarrow> fault + string" where
  "backslashUnescape_loop [] q = Inl ReadPastEnd"
| "backslashUnescape_loop (c # p) q =
     (if c = NUL then Inr q
      else if c = backslash then
        (case p of
           [] \<Rightarrow> Inl ReadPastEnd
         | d # p' \<Rightarrow> backslashUnescape_loop p' (q @ [d]))
      else backslashUnescape_loop p (q @ [c]))"

text \<open>The string a char buffer holds: its bytes before the first NUL.\<close>

definition c_str :: "string \<Rightarrow> string" where
  "c_str buf = takeWhile (\<lambda>c. c \<noteq> NUL) buf"

definition NC_backslashUnescape :: "allocator \<Rightarrow> string option \<Rightarrow> fault + string option" where
  "NC_backslashUnescape alloc esc =
     (case esc of
        None \<Rightarrow> Inr None
      | Some e \<Rightarrow>
          if \<not> alloc 0 then Inr None
          else (case backslashUnescape_loop (e @ [NUL]) [] of
                  Inl f \<Rightarrow> Inl f
                | Inr q \<Rightarrow> Inr (Some (c_str (q @ [NUL])))))"

subsection \<open>NC\_entityescape\<close>

text \<open>The \<^verbatim>\<open>switch\<close> that picks the entity; \<open>None\<close> is \<^verbatim>\<open>entity = NULL\<close>.\<close>

definition entity_of :: "char \<Rightarrow> string option" where
  "entity_of c =
     (if c = CHR ''&'' then Some ''&amp;''
      else if c = CHR ''<'' then Some ''&lt;''
      else if c = CHR ''>'' then Some ''&gt;''
      else if c = CHR 0x22 then Some ''&quot;''
      else if c = CHR 0x27 then Some ''&apos;''
      else None)"

fun entityescape_loop :: "string \<Rightarrow> string \<Rightarrow> string" where
  "entityescape_loop [] q = q"
| "entityescape_loop (c # p) q =
     (case entity_of c of
        None \<Rightarrow> entityescape_loop p (q @ [c])
      | Some entity \<Rightarrow> entityescape_loop p (q @ entity))"

definition NC_entityescape :: "allocator \<Rightarrow> string \<Rightarrow> string option" where
  "NC_entityescape alloc s =
     (if \<not> alloc 0 then None
      else Some (entityescape_loop s []))"

subsection \<open>Collaborators: NClist, NCbytes, the URI fragment store, libc\<close>

text \<open>
  Modelled from the spec: \<^verbatim>\<open>nclist.c\<close> is another file of the library. The spec's
  segment list is an ordered, growable sequence with value semantics, so an
  \<^verbatim>\<open>NClist\<close> is a list, \<^verbatim>\<open>nclistpush\<close> appends at the end and \<^verbatim>\<open>nclistnew\<close> is the
  empty list.
\<close>

definition nclistnew :: "string list option" where
  "nclistnew = Some []"

definition nclistpush :: "string list \<Rightarrow> string \<Rightarrow> string list" where
  "nclistpush l elem = l @ [elem]"

definition nclistlength :: "string list \<Rightarrow> nat" where
  "nclistlength l = length l"

text \<open>
  Modelled from the spec: \<^verbatim>\<open>ncbytes.c\<close> is another file of the library. An
  \<^verbatim>\<open>NCbytes\<close> buffer is the byte string written so far, \<^verbatim>\<open>ncbytescat\<close> appends a
  string and \<^verbatim>\<open>ncbytesextract\<close> hands the content over.
\<close>

definition ncbytescat :: "string \<Rightarrow> string \<Rightarrow> string" where
  "ncbytescat buf s = buf @ s"

definition ncbytesextract :: "string \<Rightarrow> string option" where
  "ncbytesextract buf = Some buf"

text \<open>
  Modelled from the spec: \<^verbatim>\<open>ncuri.c\<close> is another file of the library. The URI
  fragment store is a key to value mapping queried by exact key, absent keys give NULL.
\<close>

type_synonym NCURI = "string \<rightharpoonup> string"

definition ncurifragmentlookup :: "NCURI \<Rightarrow> string \<Rightarrow> string option" where
  "ncurifragmentlookup uri key = uri key"

text \<open>
  The C library. \<^verbatim>\<open>strchr\<close> finds the first occurrence of a byte, the terminator
  counting as part of the string; \<^verbatim>\<open>strcasecmp\<close> compares after \<^verbatim>\<open>tolower\<close> (the C
  locale) and only the sign of its result is specified.
\<close>

definition strlen :: "string \<Rightarrow> nat" where
  "strlen s = length s"

fun strchr :: "string \<Rightarrow> char \<Rightarrow> string option" where
  "strchr [] c = (if c = NUL then Some [] else None)"
| "strchr (a # p) c = (if a = c then Some (a # p) else strchr p c)"

definition tolower :: "char \<Rightarrow> char" where
  "tolower c =
     (if 65 \<le> (of_char c :: nat) \<and> (of_char c :: nat) \<le> 90
      then char_of (of_char c + 32 :: nat) else c)"

fun strcasecmp :: "string \<Rightarrow> string \<Rightarrow> int" where
  "strcasecmp [] [] = 0"
| "strcasecmp [] (b # t) = - 1"
| "strcasecmp (a # s) [] = 1"
| "strcasecmp (a # s) (b # t) =
     (if tolower a = tolower b then strcasecmp s t
      else if (of_char (tolower a) :: nat) < of_char (tolower b) then - 1 else 1)"

subsection \<open>NC\_split\_delim\<close>

text \<open>
  \<^verbatim>\<open>q = strchr(p,delim); if(q==NULL) q = p + strlen(p);\<close>
\<close>

definition segment_end :: "string \<Rightarrow> char \<Rightarrow> string" where
  "segment_end p delim =
     (case strchr p delim of
        None \<Rightarrow> drop (strlen p) p
      | Some q \<Rightarrow> q)"

text \<open>
  The loop \<^verbatim>\<open>for(;*p;)\<close>. \<open>k\<close> counts the allocation requests made so far,
  \<open>segments\<close> is the caller's list. \<^verbatim>\<open>len = q - p\<close> is the difference of the two
  pointers, \<^verbatim>\<open>memcpy(seg,p,len)\<close> takes the first \<open>len\<close> bytes at \<open>p\<close>, and
  \<^verbatim>\<open>if(*q) p = q+1; else p = q;\<close> steps over the delimiter found.
\<close>

function split_loop ::
  "allocator \<Rightarrow> nat \<Rightarrow> char \<Rightarrow> string \<Rightarrow> string list \<Rightarrow> nc_status \<times> string list" where
  "split_loop alloc k delim p segments =
     (if p = [] then (NC_NOERR, segments)
      else
        let q = segment_end p delim;
            len = length p - length q
        in if len = 0 then (NC_EURL, segments)
           else if \<not> alloc k then (NC_ENOMEM, segments)
           else split_loop alloc (Suc k) delim (if q \<noteq> [] then tl q else q)
                  (nclistpush segments (take len p)))"
  by pat_completeness auto
termination
proof (relation "measure (\<lambda>(alloc, k, delim, p, segments). length p)")
  show "wf (measure (\<lambda>(alloc, k, delim, p, segments). length p))"
    by simp
next
  fix alloc :: allocator and k :: nat and delim :: char and p :: string
    and segments :: "string list" and q :: string and len :: nat
  assume "q = segment_end p delim" and "len = length p - length q" and "len \<noteq> 0"
  then have "length q < length p"
    by simp
  then show "((alloc, Suc k, delim, if q \<noteq> [] then tl q else q,
                nclistpush segments (take len p)),
               (alloc, k, delim, p, segments))
             \<in> measure (\<lambda>(alloc, k, delim, p, segments). length p)"
    by (cases q) auto
qed

declare split_loop.simps [simp del]

definition NC_split_delim ::
  "allocator \<Rightarrow> string option \<Rightarrow> char \<Rightarrow> string list option \<Rightarrow> nc_status \<times> string list option" where
  "NC_split_delim alloc arg delim segments =
     (case arg of
        None \<Rightarrow> (NC_NOERR, segments)
      | Some a \<Rightarrow>
          (case segments of
             None \<Rightarrow> (NC_NOERR, segments)
           | Some segs \<Rightarrow>
               (case a of
                  [] \<Rightarrow> (NC_NOERR, segments)
                | c # r \<Rightarrow>
                    (case split_loop alloc 0 delim (if c = delim then r else a) segs of
                       (stat, segs') \<Rightarrow> (stat, Some segs')))))"

subsection \<open>NC\_join\<close>

text \<open>\<^verbatim>\<open>seg[0]\<close>: the first byte of a string, the terminator when it is empty.\<close>

definition first_byte :: "string \<Rightarrow> char" where
  "first_byte s = (case s of [] \<Rightarrow> NUL | c # _ \<Rightarrow> c)"

text \<open>
  \<^verbatim>\<open>for(i=0;i<nclistlength(segments);i++) { const char* seg = nclistget(segments,i);
  if(seg[0] != '/') ncbytescat(buf,"/"); ncbytescat(buf,seg); }\<close>
\<close>

fun join_loop :: "string list \<Rightarrow> string \<Rightarrow> string" where
  "join_loop [] buf = buf"
| "join_loop (seg # rest) buf =
     join_loop rest
       (ncbytescat (if first_byte seg \<noteq> CHR ''/'' then ncbytescat buf ''/'' else buf) seg)"

definition NC_join ::
  "allocator \<Rightarrow> string list option \<Rightarrow> string option option \<Rightarrow> nc_status \<times> string option option" where
  "NC_join alloc segments pathp =
     (case segments of
        None \<Rightarrow> (NC_EINVAL, pathp)
      | Some segs \<Rightarrow>
          if \<not> alloc 0 then (NC_ENOMEM, pathp)
          else
            let buf = (if nclistlength segs = 0 then ncbytescat [] ''/''
                       else join_loop segs [])
            in (NC_NOERR,
                case pathp of None \<Rightarrow> None | Some old \<Rightarrow> Some (ncbytesextract buf)))"

subsection \<open>NC\_getmodelist and NC\_testmode\<close>

definition NC_getmodelist ::
  "allocator \<Rightarrow> string option \<Rightarrow> string list option option
     \<Rightarrow> nc_status \<times> string list option option" where
  "NC_getmodelist alloc modestr modelistp =
     (case (case modestr of
              None \<Rightarrow> (NC_NOERR, nclistnew)
            | Some m \<Rightarrow>
                if strlen m = 0 then (NC_NOERR, nclistnew)
                else NC_split_delim alloc modestr (CHR '','') nclistnew) of
        (stat, modelist) \<Rightarrow>
          if stat = NC_NOERR
          then (stat, case modelistp of None \<Rightarrow> None | Some old \<Rightarrow> Some modelist)
          else (stat, modelistp))"

text \<open>
  \<^verbatim>\<open>for(i=0;i<nclistlength(modelist);i++) { const char* mode = nclistget(modelist,i);
  if(strcasecmp(mode,tag)==0) {found = 1; break;} }\<close>
\<close>

fun testmode_loop :: "string list \<Rightarrow> string \<Rightarrow> int" where
  "testmode_loop [] tag = 0"
| "testmode_loop (mode # rest) tag =
     (if strcasecmp mode tag = 0 then 1 else testmode_loop rest tag)"

definition NC_testmode :: "allocator \<Rightarrow> NCURI \<Rightarrow> string \<Rightarrow> int" where
  "NC_testmode alloc uri tag =
     (case ncurifragmentlookup uri ''mode'' of
        None \<Rightarrow> 0
      | Some modestr \<Rightarrow>
          (case NC_getmodelist alloc (Some modestr) (Some None) of
             (stat, modelistp) \<Rightarrow>
               if stat \<noteq> NC_NOERR then 0
               else (case modelistp of
                       Some (Some modelist) \<Rightarrow> testmode_loop modelist tag
                     | _ \<Rightarrow> 0)))"

subsection \<open>Notions used to state the properties\<close>

text \<open>The number of backslashes at the end of a string.\<close>

definition trailing_backslashes :: "string \<Rightarrow> nat" where
  "trailing_backslashes s = length (takeWhile (\<lambda>c. c = backslash) (rev s))"

text \<open>Two delimiters next to each other somewhere in a string.\<close>

fun adjacent_delims :: "char \<Rightarrow> string \<Rightarrow> bool" where
  "adjacent_delims d (a # b # s) = ((a = d \<and> b = d) \<or> adjacent_delims d (b # s))"
| "adjacent_delims d s = False"

text \<open>The segments written one after the other with one delimiter between neighbours.\<close>

fun interleave :: "char \<Rightarrow> string list \<Rightarrow> string" where
  "interleave d [] = []"
| "interleave d [x] = x"
| "interleave d (x # y # ys) = x @ d # interleave d (y # ys)"

section \<open>Properties\<close>

subsection \<open>The backslash escaper\<close>

lemma backslashEscape_loop_acc:
  "backslashEscape_loop p q = q @ backslashEscape_loop p []"
proof (induction p arbitrary: q)
  case Nil
  show ?case by simp
next
  case (Cons c p)
  show ?case
    using Cons.IH [of "q @ [backslash, backslash]"] Cons.IH [of "q @ [c]"]
      Cons.IH [of "[backslash, backslash]"] Cons.IH [of "[c]"]
    by simp
qed

lemma backslashEscape_loop_concat:
  "backslashEscape_loop s [] = concat (map (\<lambda>c. backslashEscape_loop [c] []) s)"
proof (induction s)
  case Nil
  show ?case by simp
next
  case (Cons c s)
  have "backslashEscape_loop (c # s) [] = backslashEscape_loop s (backslashEscape_loop [c] [])"
    by simp
  also have "\<dots> = backslashEscape_loop [c] [] @ backslashEscape_loop s []"
    by (rule backslashEscape_loop_acc)
  finally show ?case
    using Cons.IH by simp
qed

text \<open>
  C1. Unescaping the escaped string does not give the string back when it holds a
  \<open>/\<close>: the escaper writes two backslashes for it and drops the byte, and the
  unescaper turns them into one backslash.
\<close>

theorem backslashEscape_roundtrip_fails:
  "NC_backslashEscape (\<lambda>k. True) ''/'' = Some [backslash, backslash] \<and>
   NC_backslashUnescape (\<lambda>k. True) (NC_backslashEscape (\<lambda>k. True) ''/'')
     = Inr (Some [backslash])"
  by (simp add: NC_backslashEscape_def NC_backslashUnescape_def c_str_def)

text \<open>
  C2, as stated: every byte but the backslash is copied. The byte \<open>/\<close> is not.
\<close>

theorem backslashEscape_verbatim_counterexample:
  "NC_backslashEscape (\<lambda>k. True) ''a/b''
     \<noteq> Some (concat (map (\<lambda>c. if c = backslash then [backslash, backslash] else [c]) ''a/b''))"
  by (simp add: NC_backslashEscape_def)

text \<open>
  C2, amended. When the allocation succeeds, the output is the concatenation of what
  each input byte gives on its own; a backslash gives two backslashes; a byte other than
  backslash, \<open>/\<close>, \<open>.\<close> and \<open>@\<close> gives itself; each of \<open>/\<close>, \<open>.\<close> and \<open>@\<close>
  gives two bytes of which the first is a backslash.
\<close>

theorem backslashEscape_contract:
  assumes "alloc 0"
  shows "NC_backslashEscape alloc s
           = Some (concat (map (\<lambda>c. the (NC_backslashEscape alloc [c])) s))
         \<and> NC_backslashEscape alloc [backslash] = Some [backslash, backslash]
         \<and> (\<forall>c. c \<notin> {backslash, CHR ''/'', CHR ''.'', CHR ''@''}
                \<longrightarrow> NC_backslashEscape alloc [c] = Some [c])
         \<and> (\<forall>c \<in> {CHR ''/'', CHR ''.'', CHR ''@''}.
                \<exists>e. NC_backslashEscape alloc [c] = Some [backslash, e])"
proof -
  have one: "\<And>c. the (NC_backslashEscape alloc [c]) = backslashEscape_loop [c] []"
    using assms by (simp add: NC_backslashEscape_def)
  have "NC_backslashEscape alloc s = Some (backslashEscape_loop s [])"
    using assms by (simp add: NC_backslashEscape_def)
  then have whole: "NC_backslashEscape alloc s
      = Some (concat (map (\<lambda>c. the (NC_backslashEscape alloc [c])) s))"
    using backslashEscape_loop_concat [of s] by (simp add: one)
  have bs: "NC_backslashEscape alloc [backslash] = Some [backslash, backslash]"
    using assms by (simp add: NC_backslashEscape_def)
  have other: "\<forall>c. c \<notin> {backslash, CHR ''/'', CHR ''.'', CHR ''@''}
      \<longrightarrow> NC_backslashEscape alloc [c] = Some [c]"
    using assms by (simp add: NC_backslashEscape_def)
  have esc: "\<forall>c \<in> {CHR ''/'', CHR ''.'', CHR ''@''}.
      \<exists>e. NC_backslashEscape alloc [c] = Some [backslash, e]"
    using assms by (simp add: NC_backslashEscape_def)
  from whole bs other esc show ?thesis
    by blast
qed

theorem backslashEscape_contract_witness:
  "NC_backslashEscape (\<lambda>k. True) [CHR ''a'', backslash, CHR ''b'']
     = Some [CHR ''a'', backslash, backslash, CHR ''b'']
   \<and> NC_backslashEscape (\<lambda>k. True) [CHR ''b''] = Some [CHR ''b'']
   \<and> (\<exists>e. NC_backslashEscape (\<lambda>k. True) [CHR ''/''] = Some [backslash, e])"
proof -
  have a: "(\<lambda>k::nat. True) 0"
    by simp
  note c = backslashEscape_contract [OF a, of "[CHR ''a'', backslash, CHR ''b'']"]
  from c have "NC_backslashEscape (\<lambda>k. True) [CHR ''b''] = Some [CHR ''b'']"
    by simp
  moreover from c have "\<exists>e. NC_backslashEscape (\<lambda>k. True) [CHR ''/''] = Some [backslash, e]"
    by simp
  moreover from c have "NC_backslashEscape (\<lambda>k. True) [CHR ''a'', backslash, CHR ''b'']
     = Some [CHR ''a'', backslash, backslash, CHR ''b'']"
    by (simp add: NC_backslashEscape_def)
  ultimately show ?thesis
    by blast
qed

subsection \<open>The entity escaper\<close>

lemma entityescape_loop_acc:
  "entityescape_loop p q = q @ entityescape_loop p []"
proof (induction p arbitrary: q)
  case Nil
  show ?case by simp
next
  case (Cons c p)
  show ?case
  proof (cases "entity_of c")
    case None
    then show ?thesis
      using Cons.IH [of "q @ [c]"] Cons.IH [of "[c]"] by simp
  next
    case (Some e)
    then show ?thesis
      using Cons.IH [of "q @ e"] Cons.IH [of e] by simp
  qed
qed

lemma entityescape_loop_concat:
  "entityescape_loop s [] =
     concat (map (\<lambda>c. case entity_of c of None \<Rightarrow> [c] | Some e \<Rightarrow> e) s)"
proof (induction s)
  case Nil
  show ?case by simp
next
  case (Cons c s)
  show ?case
    using Cons.IH entityescape_loop_acc [of s "case entity_of c of None \<Rightarrow> [c] | Some e \<Rightarrow> e"]
    by (simp split: option.splits)
qed

text \<open>
  C8. When the allocation succeeds, the result of \<^verbatim>\<open>NC_entityescape\<close> is the input with
  each \<open>&\<close>, \<open><\<close>, \<open>>\<close>, double quote and single quote replaced by \<open>&amp;\<close>,
  \<open>&lt;\<close>, \<open>&gt;\<close>, \<open>&quot;\<close> and \<open>&apos;\<close>, every other byte copied, in input order.
\<close>

theorem entityescape_contract:
  assumes "alloc 0"
  shows "NC_entityescape alloc s =
           Some (concat (map (\<lambda>c. if c = CHR ''&'' then ''&amp;''
                                  else if c = CHR ''<'' then ''&lt;''
                                  else if c = CHR ''>'' then ''&gt;''
                                  else if c = CHR 0x22 then ''&quot;''
                                  else if c = CHR 0x27 then ''&apos;''
                                  else [c]) s))"
proof -
  have "(\<lambda>c. case entity_of c of None \<Rightarrow> [c] | Some e \<Rightarrow> e) =
        (\<lambda>c. if c = CHR ''&'' then ''&amp;''
              else if c = CHR ''<'' then ''&lt;''
              else if c = CHR ''>'' then ''&gt;''
              else if c = CHR 0x22 then ''&quot;''
              else if c = CHR 0x27 then ''&apos;''
              else [c])"
    by (rule ext) (simp add: entity_of_def)
  then show ?thesis
    using assms entityescape_loop_concat [of s] by (simp add: NC_entityescape_def)
qed

theorem entityescape_contract_witness:
  "NC_entityescape (\<lambda>k. True) ''<a&b>'' = Some ''&lt;a&amp;b&gt;''"
proof -
  have a: "(\<lambda>k::nat. True) 0"
    by simp
  show ?thesis
    using entityescape_contract [OF a, of "''<a&b>''"] by simp
qed

subsection \<open>The backslash unescaper\<close>

lemma trailing_backslashes_Cons:
  "trailing_backslashes (c # s) =
     (if \<forall>x\<in>set s. x = backslash
      then (if c = backslash then Suc (length s) else length s)
      else trailing_backslashes s)"
  by (auto simp: trailing_backslashes_def takeWhile_append)

lemma trailing_backslashes_all:
  "\<forall>x\<in>set s. x = backslash \<Longrightarrow> trailing_backslashes s = length s"
proof -
  assume "\<forall>x\<in>set s. x = backslash"
  then have "takeWhile (\<lambda>c. c = backslash) (rev s) = rev s"
    by (simp add: takeWhile_eq_all_conv)
  then show ?thesis
    unfolding trailing_backslashes_def by (simp only: length_rev)
qed

lemma backslashUnescape_loop_fault:
  "NUL \<notin> set e \<Longrightarrow>
     (backslashUnescape_loop (e @ [NUL]) q = Inl ReadPastEnd) = odd (trailing_backslashes e)"
proof (induction e arbitrary: q rule: induct_list012)
  case 1
  show ?case by (simp add: trailing_backslashes_def)
next
  case (2 x)
  then have "x \<noteq> NUL"
    by auto
  then show ?case by (simp add: trailing_backslashes_def)
next
  case (3 x y zs)
  show ?case
  proof (cases "x = backslash")
    case True
    have "backslashUnescape_loop ((x # y # zs) @ [NUL]) q
            = backslashUnescape_loop (zs @ [NUL]) (q @ [y])"
      using True by simp
    moreover have "NUL \<notin> set zs"
      using "3.prems" by simp
    moreover have "odd (trailing_backslashes (x # y # zs)) = odd (trailing_backslashes zs)"
      using True by (auto simp: trailing_backslashes_Cons trailing_backslashes_all)
    ultimately show ?thesis
      using "3.IH"(1) [of "q @ [y]"] by simp
  next
    case False
    have "x \<noteq> NUL"
      using "3.prems" by auto
    then have "backslashUnescape_loop ((x # y # zs) @ [NUL]) q
            = backslashUnescape_loop ((y # zs) @ [NUL]) (q @ [x])"
      using False by simp
    moreover have "NUL \<notin> set (y # zs)"
      using "3.prems" by simp
    moreover have "trailing_backslashes (x # y # zs) = trailing_backslashes (y # zs)"
      using False by (auto simp: trailing_backslashes_Cons trailing_backslashes_all)
    ultimately show ?thesis
      using "3.IH"(2) [of "q @ [x]"] by simp
  qed
qed

lemma backslashUnescape_loop_length:
  "backslashUnescape_loop p q = Inr out \<Longrightarrow> length out < length q + length p"
proof (induction p q rule: backslashUnescape_loop.induct)
  case (1 q)
  then show ?case by simp
next
  case (2 c p q)
  show ?case
  proof (cases "c = NUL")
    case True
    then show ?thesis using "2.prems" by simp
  next
    case nz: False
    show ?thesis
    proof (cases "c = backslash")
      case True
      show ?thesis
      proof (cases p)
        case Nil
        then show ?thesis using "2.prems" nz True by simp
      next
        case (Cons d p')
        then have "backslashUnescape_loop p' (q @ [d]) = Inr out"
          using "2.prems" nz True by simp
        then have "length out < length (q @ [d]) + length p'"
          using "2.IH"(1) nz True Cons by blast
        then show ?thesis using Cons by simp
      qed
    next
      case False
      then have "backslashUnescape_loop p (q @ [c]) = Inr out"
        using "2.prems" nz by simp
      then have "length out < length (q @ [c]) + length p"
        using "2.IH"(2) nz False by blast
      then show ?thesis by simp
    qed
  qed
qed

text \<open>
  C10. For a string without NUL bytes and a successful allocation,
  \<^verbatim>\<open>NC_backslashUnescape\<close> reads past the end of its input exactly when the input ends
  in an odd number of backslashes, that is when its last backslash is not itself escaped
  by the one before it: the scan then copies the terminator as the escaped byte and tests
  the byte after it. Otherwise the scan stops at the terminator and returns a string no
  longer than the input.
\<close>

theorem backslashUnescape_reads_past_end:
  assumes "NUL \<notin> set esc" and "alloc 0"
  shows "(NC_backslashUnescape alloc (Some esc) = Inl ReadPastEnd)
           = odd (trailing_backslashes esc)
         \<and> (even (trailing_backslashes esc) \<longrightarrow>
              (\<exists>out. NC_backslashUnescape alloc (Some esc) = Inr (Some out)
                     \<and> length out \<le> length esc))"
proof -
  note fault = backslashUnescape_loop_fault [OF assms(1), of "[]"]
  have first: "(NC_backslashUnescape alloc (Some esc) = Inl ReadPastEnd)
                 = odd (trailing_backslashes esc)"
  proof (cases "backslashUnescape_loop (esc @ [NUL]) []")
    case (Inl f)
    then show ?thesis
      using assms(2) fault by (cases f) (simp add: NC_backslashUnescape_def)
  next
    case (Inr q)
    then show ?thesis
      using assms(2) fault by (simp add: NC_backslashUnescape_def)
  qed
  have second: "\<exists>out. NC_backslashUnescape alloc (Some esc) = Inr (Some out)
                   \<and> length out \<le> length esc"
    if ev: "even (trailing_backslashes esc)"
  proof (cases "backslashUnescape_loop (esc @ [NUL]) []")
    case (Inl f)
    then have "backslashUnescape_loop (esc @ [NUL]) [] = Inl ReadPastEnd"
      by (cases f) simp
    then show ?thesis
      using fault ev by simp
  next
    case (Inr q)
    then have "length q \<le> length esc"
      using backslashUnescape_loop_length [of "esc @ [NUL]" "[]" q] by simp
    moreover have "length (c_str (q @ [NUL])) \<le> length q"
      by (simp add: c_str_def takeWhile_append length_takeWhile_le)
    moreover have "NC_backslashUnescape alloc (Some esc) = Inr (Some (c_str (q @ [NUL])))"
      using Inr assms(2) by (simp add: NC_backslashUnescape_def)
    ultimately show ?thesis
      by auto
  qed
  from first second show ?thesis
    by blast
qed

theorem backslashUnescape_reads_past_end_witness:
  "NC_backslashUnescape (\<lambda>k. True) (Some [CHR ''a'', backslash]) = Inl ReadPastEnd
   \<and> NC_backslashUnescape (\<lambda>k. True) (Some [CHR ''a'', backslash, backslash])
       = Inr (Some [CHR ''a'', backslash])"
proof -
  have a: "(\<lambda>k::nat. True) 0"
    by simp
  have n1: "NUL \<notin> set [CHR ''a'', backslash]"
    by simp
  have n2: "NUL \<notin> set [CHR ''a'', backslash, backslash]"
    by simp
  have "NC_backslashUnescape (\<lambda>k. True) (Some [CHR ''a'', backslash]) = Inl ReadPastEnd"
    using backslashUnescape_reads_past_end [OF n1 a]
    by (simp add: trailing_backslashes_def)
  moreover have "NC_backslashUnescape (\<lambda>k. True) (Some [CHR ''a'', backslash, backslash])
               = Inr (Some [CHR ''a'', backslash])"
    using backslashUnescape_reads_past_end [OF n2 a]
    by (simp add: NC_backslashUnescape_def c_str_def)
  ultimately show ?thesis
    by blast
qed

text \<open>
  Where the round trip does hold: on strings without \<open>/\<close>, \<open>.\<close> and \<open>@\<close>.
\<close>

lemma backslashUnescape_loop_escaped:
  assumes "set s \<inter> {NUL, CHR ''/'', CHR ''.'', CHR ''@''} = {}"
  shows "backslashUnescape_loop (backslashEscape_loop s [] @ [NUL]) q = Inr (q @ s)"
  using assms
proof (induction s arbitrary: q)
  case Nil
  show ?case by simp
next
  case (Cons c s)
  have c: "c \<noteq> NUL" "c \<noteq> CHR ''/''" "c \<noteq> CHR ''.''" "c \<noteq> CHR ''@''"
    using Cons.prems by auto
  have s: "set s \<inter> {NUL, CHR ''/'', CHR ''.'', CHR ''@''} = {}"
    using Cons.prems by auto
  show ?case
  proof (cases "c = backslash")
    case True
    have "backslashEscape_loop (c # s) [] = [backslash, backslash] @ backslashEscape_loop s []"
      using True backslashEscape_loop_acc [of s "[backslash, backslash]"] by simp
    then show ?thesis
      using True Cons.IH [OF s, of "q @ [backslash]"] by simp
  next
    case False
    have "backslashEscape_loop (c # s) [] = [c] @ backslashEscape_loop s []"
      using False c backslashEscape_loop_acc [of s "[c]"] by simp
    then show ?thesis
      using False c Cons.IH [OF s, of "q @ [c]"] by simp
  qed
qed

lemma backslash_roundtrip_restricted:
  assumes "set s \<inter> {NUL, CHR ''/'', CHR ''.'', CHR ''@''} = {}" and "alloc 0" and "alloc' 0"
  shows "NC_backslashUnescape alloc' (NC_backslashEscape alloc s) = Inr (Some s)"
proof -
  have "NUL \<notin> set s"
    using assms(1) by auto
  then have "c_str (s @ [NUL]) = s"
    by (simp add: c_str_def takeWhile_append)
  then show ?thesis
    using assms backslashUnescape_loop_escaped [OF assms(1), of "[]"]
    by (simp add: NC_backslashEscape_def NC_backslashUnescape_def)
qed

subsection \<open>The splitter\<close>

lemma strchr_found:
  "c \<in> set p \<Longrightarrow> strchr p c = Some (dropWhile (\<lambda>x. x \<noteq> c) p)"
  by (induction p) auto

lemma strchr_not_found:
  "c \<notin> set p \<Longrightarrow> strchr p c = (if c = NUL then Some [] else None)"
  by (induction p) auto

lemma segment_end_dropWhile:
  "segment_end p delim = dropWhile (\<lambda>x. x \<noteq> delim) p"
proof (cases "delim \<in> set p")
  case True
  then show ?thesis
    by (simp add: segment_end_def strchr_found)
next
  case False
  then have dw: "dropWhile (\<lambda>x. x \<noteq> delim) p = []"
    by auto
  have "segment_end p delim = []"
    using False by (simp add: segment_end_def strchr_not_found strlen_def)
  then show ?thesis
    by (simp only: dw)
qed

lemma segment_length:
  "length p - length (dropWhile (\<lambda>x. x \<noteq> delim) p) = length (takeWhile (\<lambda>x. x \<noteq> delim) p)"
proof -
  have "length (takeWhile (\<lambda>x. x \<noteq> delim) p @ dropWhile (\<lambda>x. x \<noteq> delim) p) = length p"
    by simp
  then show ?thesis
    by (simp only: length_append)
qed

lemma segment_take:
  "take (length (takeWhile (\<lambda>x. x \<noteq> delim) p)) p = takeWhile (\<lambda>x. x \<noteq> delim) p"
proof -
  have "take (length (takeWhile (\<lambda>x. x \<noteq> delim) p))
          (takeWhile (\<lambda>x. x \<noteq> delim) p @ dropWhile (\<lambda>x. x \<noteq> delim) p)
        = takeWhile (\<lambda>x. x \<noteq> delim) p"
    by (rule append_eq_conv_conj [THEN iffD1, THEN conjunct1, symmetric]) (rule refl)
  then show ?thesis
    by (simp only: takeWhile_dropWhile_id)
qed

text \<open>The loop, one iteration unfolded, in terms of the run before the first delimiter.\<close>

lemma split_loop_Nil [simp]: "split_loop alloc k delim [] segments = (NC_NOERR, segments)"
  by (subst split_loop.simps) simp

lemma split_loop_step:
  assumes "p \<noteq> []"
  shows "split_loop alloc k delim p segments =
     (if takeWhile (\<lambda>x. x \<noteq> delim) p = [] then (NC_EURL, segments)
      else if \<not> alloc k then (NC_ENOMEM, segments)
      else split_loop alloc (Suc k) delim (tl (dropWhile (\<lambda>x. x \<noteq> delim) p))
             (segments @ [takeWhile (\<lambda>x. x \<noteq> delim) p]))"
proof -
  have "\<And>q :: string. (if q \<noteq> [] then tl q else q) = tl q"
    by simp
  then show ?thesis
    using assms
    by (subst split_loop.simps)
      (simp only: Let_def segment_end_dropWhile segment_length segment_take nclistpush_def
        length_0_conv if_False)
qed

lemma adjacent_delims_iff:
  "adjacent_delims d s = (\<exists>u v. s = u @ d # d # v)"
proof (induction d s rule: adjacent_delims.induct)
  case (1 d a b s)
  show ?case
  proof
    assume "adjacent_delims d (a # b # s)"
    then consider "a = d \<and> b = d" | "adjacent_delims d (b # s)"
      by auto
    then show "\<exists>u v. a # b # s = u @ d # d # v"
    proof cases
      case 1
      then have "a # b # s = [] @ d # d # s"
        by simp
      then show ?thesis by blast
    next
      case 2
      then obtain u v where "b # s = u @ d # d # v"
        using "1.IH" by blast
      then have "a # b # s = (a # u) @ d # d # v"
        by simp
      then show ?thesis by blast
    qed
  next
    assume "\<exists>u v. a # b # s = u @ d # d # v"
    then obtain u v where uv: "a # b # s = u @ d # d # v"
      by blast
    show "adjacent_delims d (a # b # s)"
    proof (cases u)
      case Nil
      then show ?thesis using uv by simp
    next
      case (Cons x u')
      then have "b # s = u' @ d # d # v"
        using uv by simp
      then have "adjacent_delims d (b # s)"
        using "1.IH" by blast
      then show ?thesis
        by simp
    qed
  qed
qed (simp_all add: append_eq_Cons_conv)

lemma length_next_segment:
  "p \<noteq> [] \<Longrightarrow> length (tl (dropWhile P p)) < length p"
proof -
  assume "p \<noteq> []"
  have "length (dropWhile P p) \<le> length p"
    by (rule length_dropWhile_le)
  then show ?thesis
    using \<open>p \<noteq> []\<close> by (cases "dropWhile P p") (simp_all del: dropWhile_eq_Nil_conv)
qed

lemma split_loop_appends:
  "\<exists>new. snd (split_loop alloc k d p segs) = segs @ new \<and> [] \<notin> set new"
proof (induction p arbitrary: k segs rule: length_induct)
  case (1 p)
  show ?case
  proof (cases "p = []")
    case True
    then show ?thesis by simp
  next
    case False
    let ?w = "takeWhile (\<lambda>x. x \<noteq> d) p"
    let ?rest = "tl (dropWhile (\<lambda>x. x \<noteq> d) p)"
    show ?thesis
    proof (cases "?w = [] \<or> \<not> alloc k")
      case True
      then have "snd (split_loop alloc k d p segs) = segs @ []"
        using False by (auto simp: split_loop_step)
      then show ?thesis
        by (metis empty_iff list.set(1))
    next
      case go: False
      have "length ?rest < length p"
        using False by (rule length_next_segment)
      then obtain new where
        new: "snd (split_loop alloc (Suc k) d ?rest (segs @ [?w])) = (segs @ [?w]) @ new"
          "[] \<notin> set new"
        using "1.IH" by blast
      have "snd (split_loop alloc k d p segs) = segs @ (?w # new)"
        using False go new(1) by (simp add: split_loop_step)
      moreover have "[] \<notin> set (?w # new)"
        using go new(2) by auto
      ultimately show ?thesis
        by blast
    qed
  qed
qed

lemma run_before_delim:
  assumes "d \<notin> set w"
  shows "takeWhile (\<lambda>x. x \<noteq> d) (w @ d # rest) = w"
    and "dropWhile (\<lambda>x. x \<noteq> d) (w @ d # rest) = d # rest"
proof -
  have all: "\<And>x. x \<in> set w \<Longrightarrow> x \<noteq> d"
    using assms by blast
  show "takeWhile (\<lambda>x. x \<noteq> d) (w @ d # rest) = w"
    using all by (simp add: takeWhile_append2)
  show "dropWhile (\<lambda>x. x \<noteq> d) (w @ d # rest) = d # rest"
    using all by (simp add: dropWhile_append2)
qed

lemma run_without_delim:
  assumes "d \<notin> set p"
  shows "takeWhile (\<lambda>x. x \<noteq> d) p = p" and "dropWhile (\<lambda>x. x \<noteq> d) p = []"
  using assms by auto

lemma split_loop_free:
  assumes "p \<noteq> []" and "d \<notin> set p"
  shows "split_loop alloc k d p segs =
           (if \<not> alloc k then (NC_ENOMEM, segs) else (NC_NOERR, segs @ [p]))"
proof -
  note step = split_loop_step [OF assms(1), of alloc k d segs]
  show ?thesis
    unfolding step run_without_delim [OF assms(2)] using assms(1) by simp
qed

lemma split_loop_delim:
  assumes "d \<notin> set w"
  shows "split_loop alloc k d (w @ d # rest) segs =
           (if w = [] then (NC_EURL, segs)
            else if \<not> alloc k then (NC_ENOMEM, segs)
            else split_loop alloc (Suc k) d rest (segs @ [w]))"
proof -
  have "w @ d # rest \<noteq> []"
    by simp
  note step = split_loop_step [OF this, of alloc k d segs]
  show ?thesis
    unfolding step run_before_delim [OF assms] by simp
qed

lemma split_loop_rejects:
  assumes "(\<exists>u v. p = u @ d # d # v) \<or> (\<exists>r. p = d # r)"
  shows "fst (split_loop alloc k d p segs) \<noteq> NC_NOERR
         \<and> ((\<forall>j. alloc j) \<longrightarrow> fst (split_loop alloc k d p segs) = NC_EURL)"
  using assms
proof (induction p arbitrary: k segs rule: length_induct)
  case (1 p)
  have "d \<in> set p"
    using "1.prems" by auto
  then obtain w rest where p: "p = w @ d # rest" and w: "d \<notin> set w"
    by (auto dest: split_list_first)
  note eq = split_loop_delim [OF w, of alloc k rest segs]
  show ?case
  proof (cases "w = []")
    case True
    then show ?thesis
      unfolding p eq by simp
  next
    case ne: False
    from "1.prems" have bad: "(\<exists>u' v'. rest = u' @ d # d # v') \<or> (\<exists>r. rest = d # r)"
    proof
      assume "\<exists>u v. p = u @ d # d # v"
      then obtain u v where uv: "w @ d # rest = u @ d # d # v"
        using p by auto
      show ?thesis
      proof (cases "d \<in> set u")
        case True
        then obtain u1 u2 where u: "u = u1 @ d # u2" and u1: "d \<notin> set u1"
          by (auto dest: split_list_first)
        have "w @ d # rest = u1 @ d # (u2 @ d # d # v)"
          using uv u by simp
        then have "rest = u2 @ d # d # v"
          using w u1 by (auto simp: append_eq_append_conv2 append_eq_Cons_conv Cons_eq_append_conv)
        then show ?thesis by blast
      next
        case False
        then have "rest = d # v"
          using uv w by (auto simp: append_eq_append_conv2 append_eq_Cons_conv Cons_eq_append_conv)
        then show ?thesis by blast
      qed
    next
      assume "\<exists>r. p = d # r"
      then have False
        using p w ne by (cases w) auto
      then show ?thesis ..
    qed
    have "length rest < length p"
      using p by simp
    then have IH: "fst (split_loop alloc (Suc k) d rest (segs @ [w])) \<noteq> NC_NOERR
        \<and> ((\<forall>j. alloc j) \<longrightarrow> fst (split_loop alloc (Suc k) d rest (segs @ [w])) = NC_EURL)"
      using "1.IH" bad by blast
    show ?thesis
    proof (cases "alloc k")
      case True
      then have e: "split_loop alloc k d p segs = split_loop alloc (Suc k) d rest (segs @ [w])"
        unfolding p eq using ne by simp
      show ?thesis
        unfolding e by (rule IH)
    next
      case False
      then have "split_loop alloc k d p segs = (NC_ENOMEM, segs)"
        unfolding p eq using ne by simp
      then show ?thesis
        using False by auto
    qed
  qed
qed

lemma interleave_Cons:
  "ys \<noteq> [] \<Longrightarrow> interleave d (x # ys) = x @ d # interleave d ys"
  by (cases ys) simp_all

lemma split_loop_valid:
  assumes "\<forall>j. alloc j" and "\<not> adjacent_delims d p" and "p = [] \<or> hd p \<noteq> d"
  shows "\<exists>new. split_loop alloc k d p segs = (NC_NOERR, segs @ new)
           \<and> (p = interleave d new \<or> p = interleave d new @ [d])
           \<and> (new = [] \<longrightarrow> p = [])"
  using assms(2,3)
proof (induction p arbitrary: k segs rule: length_induct)
  case (1 p)
  have alloc: "alloc k"
    using assms(1) by simp
  show ?case
  proof (cases "p = []")
    case True
    then show ?thesis by simp
  next
    case ne: False
    show ?thesis
    proof (cases "d \<in> set p")
      case False
      then have "split_loop alloc k d p segs = (NC_NOERR, segs @ [p])"
        using ne alloc by (simp add: split_loop_free)
      moreover have "p = interleave d [p]"
        by simp
      ultimately show ?thesis
        by blast
    next
      case True
      then obtain w rest where p: "p = w @ d # rest" and w: "d \<notin> set w"
        by (auto dest: split_list_first)
      have wne: "w \<noteq> []"
        using "1.prems"(2) ne p by (cases w) auto
      have step: "split_loop alloc k d p segs = split_loop alloc (Suc k) d rest (segs @ [w])"
        unfolding p split_loop_delim [OF w] using wne alloc by simp
      have nadj: "\<not> adjacent_delims d rest"
      proof
        assume "adjacent_delims d rest"
        then obtain u v where "rest = u @ d # d # v"
          by (auto simp: adjacent_delims_iff)
        then have "p = (w @ d # u) @ d # d # v"
          using p by simp
        then have "adjacent_delims d p"
          unfolding adjacent_delims_iff by blast
        then show False
          using "1.prems"(1) by simp
      qed
      have hd: "rest = [] \<or> hd rest \<noteq> d"
      proof (cases rest)
        case Nil
        then show ?thesis by simp
      next
        case (Cons b r)
        have "b \<noteq> d"
        proof
          assume "b = d"
          then have "p = w @ d # d # r"
            using p Cons by simp
          then have "adjacent_delims d p"
            unfolding adjacent_delims_iff by blast
          then show False
            using "1.prems"(1) by simp
        qed
        then show ?thesis
          using Cons by simp
      qed
      have "length rest < length p"
        using p by simp
      then obtain new where
        new: "split_loop alloc (Suc k) d rest (segs @ [w]) = (NC_NOERR, (segs @ [w]) @ new)"
          "rest = interleave d new \<or> rest = interleave d new @ [d]"
          "new = [] \<longrightarrow> rest = []"
        using "1.IH" nadj hd by blast
      have res: "split_loop alloc k d p segs = (NC_NOERR, segs @ (w # new))"
        using step new(1) by simp
      show ?thesis
      proof (cases "new = []")
        case True
        then have "rest = []"
          using new(3) by simp
        then have "p = interleave d [w] @ [d]"
          using p by simp
        then show ?thesis
          using res True by blast
      next
        case False
        then have "interleave d (w # new) = w @ d # interleave d new"
          by (rule interleave_Cons)
        then have "p = interleave d (w # new) \<or> p = interleave d (w # new) @ [d]"
          using p new(2) by auto
        then show ?thesis
          using res by blast
      qed
    qed
  qed
qed

lemma split_loop_trailing:
  assumes "p \<noteq> []" and "last p \<noteq> d" and "split_loop alloc k d p segs = (NC_NOERR, r)"
  shows "split_loop alloc k d (p @ [d]) segs = (NC_NOERR, r)"
  using assms
proof (induction p arbitrary: k segs rule: length_induct)
  case (1 p)
  have ne: "p \<noteq> []" and lst: "last p \<noteq> d"
    using "1.prems" by simp_all
  show ?case
  proof (cases "d \<in> set p")
    case False
    have "split_loop alloc k d (p @ d # []) segs =
            (if \<not> alloc k then (NC_ENOMEM, segs) else (NC_NOERR, segs @ [p]))"
      using ne by (simp add: split_loop_delim [OF False])
    then show ?thesis
      using "1.prems"(3) ne by (simp add: split_loop_free [OF ne False] split: if_splits)
  next
    case True
    then obtain w rest where p: "p = w @ d # rest" and w: "d \<notin> set w"
      by (auto dest: split_list_first)
    have rest: "rest \<noteq> []" "last rest \<noteq> d"
      using lst p by (auto split: if_splits)
    have ok: "w \<noteq> [] \<and> alloc k"
      using "1.prems"(3) unfolding p split_loop_delim [OF w] by (auto split: if_splits)
    then have step: "split_loop alloc (Suc k) d rest (segs @ [w]) = (NC_NOERR, r)"
      using "1.prems"(3) unfolding p split_loop_delim [OF w] by simp
    have "length rest < length p"
      using p by simp
    then have "split_loop alloc (Suc k) d (rest @ [d]) (segs @ [w]) = (NC_NOERR, r)"
      using "1.IH" rest step by blast
    moreover have "p @ [d] = w @ d # (rest @ [d])"
      using p by simp
    ultimately show ?thesis
      using ok by (simp add: split_loop_delim [OF w])
  qed
qed

lemma NC_split_delim_Cons:
  "NC_split_delim alloc (Some (c # r)) d (Some segs) =
     (fst (split_loop alloc 0 d (if c = d then r else c # r) segs),
      Some (snd (split_loop alloc 0 d (if c = d then r else c # r) segs)))"
  by (simp add: NC_split_delim_def split: prod.splits)

lemma NC_split_delim_appends:
  "\<exists>new. snd (NC_split_delim alloc arg d (Some segs)) = Some (segs @ new) \<and> [] \<notin> set new"
proof (cases arg)
  case None
  then show ?thesis by (simp add: NC_split_delim_def)
next
  case (Some a)
  show ?thesis
  proof (cases a)
    case Nil
    then show ?thesis using Some by (simp add: NC_split_delim_def)
  next
    case (Cons c r)
    then show ?thesis
      using Some split_loop_appends [of alloc 0 d "if c = d then r else c # r" segs]
      by (simp only: NC_split_delim_Cons snd_conv option.inject)
  qed
qed

lemma NC_split_delim_succeeds:
  assumes "\<not> adjacent_delims d s" and "\<forall>k. alloc k"
  shows "fst (NC_split_delim alloc (Some s) d (Some segs)) = NC_NOERR"
proof (cases s)
  case Nil
  then show ?thesis
    by (simp add: NC_split_delim_def)
next
  case (Cons c r)
  let ?p = "if c = d then r else c # r"
  have nadj: "\<not> adjacent_delims d ?p"
    using assms(1) Cons by (cases r) auto
  have hd: "?p = [] \<or> hd ?p \<noteq> d"
    using assms(1) Cons by (cases r) auto
  obtain new where "split_loop alloc 0 d ?p segs = (NC_NOERR, segs @ new)"
    using split_loop_valid [OF assms(2) nadj hd, of 0 segs] by blast
  then show ?thesis
    unfolding Cons NC_split_delim_Cons by simp
qed

text \<open>
  Inputs built from their runs: the segments pushed, the status, and where the loop
  stops.
\<close>

lemma interleave_append_delim:
  "interleave d (x # ys) @ d # rest =
     x @ d # (if ys = [] then rest else interleave d ys @ d # rest)"
  by (cases ys) simp_all

lemma interleave_append_tail:
  "ys \<noteq> [] \<Longrightarrow> interleave d (x # ys) @ t = x @ d # (interleave d ys @ t)"
  by (cases ys) simp_all

lemma split_loop_runs:
  assumes "ws \<noteq> []" and "\<forall>w \<in> set ws. w \<noteq> [] \<and> d \<notin> set w"
    and "\<forall>i < length ws. alloc (k + i)"
  shows "split_loop alloc k d (interleave d ws @ d # rest) segs =
           split_loop alloc (k + length ws) d rest (segs @ ws)"
  using assms
proof (induction ws arbitrary: k segs rule: list_nonempty_induct)
  case (single x)
  then have x: "x \<noteq> []" "d \<notin> set x" and a: "alloc k"
    by auto
  show ?case
    using x a by (simp add: split_loop_delim)
next
  case (cons x ys)
  have x: "x \<noteq> []" "d \<notin> set x"
    using cons.prems by auto
  have a: "alloc k"
    using cons.prems(2) by (metis add.right_neutral length_greater_0_conv list.discI)
  have ys: "\<forall>w \<in> set ys. w \<noteq> [] \<and> d \<notin> set w"
    using cons.prems(1) by simp
  have al: "\<forall>i < length ys. alloc (Suc k + i)"
  proof (intro allI impI)
    fix i assume "i < length ys"
    then have "Suc i < length (x # ys)"
      by simp
    then have "alloc (k + Suc i)"
      using cons.prems(2) by blast
    then show "alloc (Suc k + i)"
      by simp
  qed
  have "split_loop alloc k d (interleave d (x # ys) @ d # rest) segs
          = split_loop alloc (Suc k) d (interleave d ys @ d # rest) (segs @ [x])"
    using x a cons.hyps(1) by (simp add: interleave_append_delim split_loop_delim)
  also have "\<dots> = split_loop alloc (Suc k + length ys) d rest ((segs @ [x]) @ ys)"
    using cons.IH [OF ys al] .
  finally show ?case
    by simp
qed

lemma split_loop_runs_oom:
  assumes "\<forall>w \<in> set ws. w \<noteq> [] \<and> d \<notin> set w" and "n < length ws"
    and "\<forall>i < n. alloc (k + i)" and "\<not> alloc (k + n)" and "t = [] \<or> hd t = d"
  shows "split_loop alloc k d (interleave d ws @ t) segs = (NC_ENOMEM, segs @ take n ws)"
  using assms(1-4)
proof (induction ws arbitrary: n k segs)
  case Nil
  then show ?case by simp
next
  case (Cons x ys)
  have x: "x \<noteq> []" "d \<notin> set x"
    using Cons.prems(1) by auto
  have ys: "\<forall>w \<in> set ys. w \<noteq> [] \<and> d \<notin> set w"
    using Cons.prems(1) by simp
  show ?case
  proof (cases n)
    case 0
    then have na: "\<not> alloc k"
      using Cons.prems(4) by simp
    show ?thesis
    proof (cases "ys = [] \<and> t = []")
      case True
      then show ?thesis
        using x na 0 by (simp add: split_loop_free)
    next
      case False
      then obtain r where "interleave d (x # ys) @ t = x @ d # r"
        using assms(5) by (cases ys; cases t) auto
      then show ?thesis
        using x na 0 by (simp add: split_loop_delim)
    qed
  next
    case (Suc m)
    then have ne: "ys \<noteq> []" and m: "m < length ys"
      using Cons.prems(2) by auto
    have a: "alloc k"
      using Cons.prems(3) Suc by (metis add.right_neutral zero_less_Suc)
    have al: "\<forall>i < m. alloc (Suc k + i)"
    proof (intro allI impI)
      fix i assume "i < m"
      then have "Suc i < n"
        using Suc by simp
      then have "alloc (k + Suc i)"
        using Cons.prems(3) by blast
      then show "alloc (Suc k + i)"
        by simp
    qed
    have na: "\<not> alloc (Suc k + m)"
      using Cons.prems(4) Suc by simp
    have "split_loop alloc k d (interleave d (x # ys) @ t) segs
            = split_loop alloc (Suc k) d (interleave d ys @ t) (segs @ [x])"
      using x a ne by (simp add: interleave_append_tail split_loop_delim)
    also have "\<dots> = (NC_ENOMEM, (segs @ [x]) @ take m ys)"
      using Cons.IH [OF ys m al na] .
    finally show ?thesis
      using Suc by simp
  qed
qed

lemma hd_interleave:
  assumes "ws \<noteq> []" and "\<forall>w \<in> set ws. w \<noteq> [] \<and> d \<notin> set w"
  shows "\<exists>c r. interleave d ws @ t = c # r \<and> c \<noteq> d"
proof -
  obtain x ys where ws: "ws = x # ys"
    using assms(1) by (cases ws) auto
  then obtain c x' where x: "x = c # x'" and "c \<noteq> d"
    using assms(2) by (cases x) auto
  then show ?thesis
    using ws by (cases ys) auto
qed

text \<open>The loop that a call runs, by the way the input starts.\<close>

lemma NC_split_delim_lead:
  assumes "lead = [] \<or> (lead = [d] \<and> ws \<noteq> [])" and "\<forall>w \<in> set ws. w \<noteq> [] \<and> d \<notin> set w"
    and "ws = [] \<longrightarrow> (\<exists>r. t = d # r)"
  shows "NC_split_delim alloc (Some (lead @ interleave d ws @ t)) d (Some segs) =
           (fst (split_loop alloc 0 d (if ws = [] then tl t else interleave d ws @ t) segs),
            Some (snd (split_loop alloc 0 d (if ws = [] then tl t else interleave d ws @ t) segs)))"
proof (cases "ws = []")
  case True
  then obtain r where "t = d # r" and "lead = []"
    using assms(1,3) by auto
  then show ?thesis
    using True by (simp add: NC_split_delim_Cons)
next
  case False
  then obtain c r where cr: "interleave d ws @ t = c # r" and c: "c \<noteq> d"
    using hd_interleave [OF False assms(2)] by blast
  show ?thesis
  proof (cases "lead = []")
    case True
    then show ?thesis
      using False cr c by (simp add: NC_split_delim_Cons)
  next
    case lead: False
    then have "lead = [d]"
      using assms(1) by simp
    then show ?thesis
      using False by (simp add: NC_split_delim_Cons)
  qed
qed

lemma NC_split_delim_runs_trailing:
  assumes "lead = [] \<or> (lead = [d] \<and> ws \<noteq> [])" and "\<forall>w \<in> set ws. w \<noteq> [] \<and> d \<notin> set w"
    and "\<forall>k < length ws. alloc k"
  shows "NC_split_delim alloc (Some (lead @ interleave d ws @ [d])) d (Some segs) =
           (NC_NOERR, Some (segs @ ws))"
proof -
  have t: "ws = [] \<longrightarrow> (\<exists>r. [d] = d # r)"
    by simp
  note eq = NC_split_delim_lead [OF assms(1,2) t, of alloc segs]
  show ?thesis
  proof (cases "ws = []")
    case True
    then show ?thesis
      unfolding eq by simp
  next
    case False
    have al: "\<forall>i < length ws. alloc (0 + i)"
      using assms(3) by simp
    have "split_loop alloc 0 d (interleave d ws @ [d]) segs = (NC_NOERR, segs @ ws)"
      using split_loop_runs [OF False assms(2) al, of "[]" segs] by simp
    then show ?thesis
      unfolding eq using False by simp
  qed
qed

lemma NC_split_delim_runs_empty:
  assumes "lead = [] \<or> (lead = [d] \<and> ws \<noteq> [])" and "\<forall>w \<in> set ws. w \<noteq> [] \<and> d \<notin> set w"
    and "\<forall>k < length ws. alloc k"
  shows "NC_split_delim alloc (Some (lead @ interleave d ws @ d # d # rest)) d (Some segs) =
           (NC_EURL, Some (segs @ ws))"
proof -
  have t: "ws = [] \<longrightarrow> (\<exists>r. d # d # rest = d # r)"
    by simp
  note eq = NC_split_delim_lead [OF assms(1,2) t, of alloc segs]
  have stop: "\<And>k l. split_loop alloc k d (d # rest) l = (NC_EURL, l)"
    using split_loop_delim [of d "[]" alloc _ rest] by simp
  show ?thesis
  proof (cases "ws = []")
    case True
    then show ?thesis
      unfolding eq by (simp add: stop)
  next
    case False
    have al: "\<forall>i < length ws. alloc (0 + i)"
      using assms(3) by simp
    have "split_loop alloc 0 d (interleave d ws @ d # d # rest) segs = (NC_EURL, segs @ ws)"
      using split_loop_runs [OF False assms(2) al, of "d # rest" segs] by (simp add: stop)
    then show ?thesis
      unfolding eq using False by simp
  qed
qed

lemma NC_split_delim_runs_oom:
  assumes "lead = [] \<or> (lead = [d] \<and> ws \<noteq> [])" and "\<forall>w \<in> set ws. w \<noteq> [] \<and> d \<notin> set w"
    and "n < length ws" and "\<forall>k < n. alloc k" and "\<not> alloc n" and "t = [] \<or> hd t = d"
  shows "NC_split_delim alloc (Some (lead @ interleave d ws @ t)) d (Some segs) =
           (NC_ENOMEM, Some (segs @ take n ws))"
proof -
  have ne: "ws \<noteq> []"
    using assms(3) by auto
  then have t: "ws = [] \<longrightarrow> (\<exists>r. t = d # r)"
    by simp
  note eq = NC_split_delim_lead [OF assms(1,2) t, of alloc segs]
  have al: "\<forall>i < n. alloc (0 + i)" and na: "\<not> alloc (0 + n)"
    using assms(4,5) by simp_all
  have "split_loop alloc 0 d (interleave d ws @ t) segs = (NC_ENOMEM, segs @ take n ws)"
    using split_loop_runs_oom [OF assms(2,3) al na assms(6)] .
  then show ?thesis
    unfolding eq using ne by simp
qed

text \<open>
  C3. A string with two delimiters next to each other is never split with success: the
  status is an error, and it is \<^verbatim>\<open>NC_EURL\<close> (malformed input) whenever no allocation
  fails before the empty run is reached. Whatever the input and the outcome, the segments
  the call has added to the caller's list all have a length above zero.
\<close>

theorem split_rejects_empty_segments:
  "(adjacent_delims delim s \<longrightarrow>
      fst (NC_split_delim alloc (Some s) delim (Some segs)) \<noteq> NC_NOERR
      \<and> ((\<forall>k. alloc k) \<longrightarrow>
           fst (NC_split_delim alloc (Some s) delim (Some segs)) = NC_EURL))
   \<and> (\<exists>new. snd (NC_split_delim alloc (Some s) delim (Some segs)) = Some (segs @ new)
            \<and> (\<forall>seg \<in> set new. 0 < length seg))"
proof
  show "adjacent_delims delim s \<longrightarrow>
      fst (NC_split_delim alloc (Some s) delim (Some segs)) \<noteq> NC_NOERR
      \<and> ((\<forall>k. alloc k) \<longrightarrow>
           fst (NC_split_delim alloc (Some s) delim (Some segs)) = NC_EURL)"
  proof
    assume "adjacent_delims delim s"
    then obtain u v where s: "s = u @ delim # delim # v"
      by (auto simp: adjacent_delims_iff)
    then have "s \<noteq> []"
      by simp
    then obtain c r where cr: "s = c # r"
      by (auto simp: neq_Nil_conv)
    let ?p = "if c = delim then r else c # r"
    have "(\<exists>u' v'. ?p = u' @ delim # delim # v') \<or> (\<exists>r'. ?p = delim # r')"
    proof (cases "c = delim")
      case True
      show ?thesis
      proof (cases u)
        case Nil
        then have "r = delim # v"
          using s cr by simp
        then show ?thesis using True by simp
      next
        case (Cons x u')
        then have "r = u' @ delim # delim # v"
          using s cr by simp
        then show ?thesis using True by auto
      qed
    next
      case False
      then show ?thesis using s cr by auto
    qed
    then have "fst (split_loop alloc 0 delim ?p segs) \<noteq> NC_NOERR
         \<and> ((\<forall>j. alloc j) \<longrightarrow> fst (split_loop alloc 0 delim ?p segs) = NC_EURL)"
      by (rule split_loop_rejects)
    then show "fst (NC_split_delim alloc (Some s) delim (Some segs)) \<noteq> NC_NOERR
      \<and> ((\<forall>k. alloc k) \<longrightarrow>
           fst (NC_split_delim alloc (Some s) delim (Some segs)) = NC_EURL)"
      unfolding cr NC_split_delim_Cons fst_conv .
  qed
next
  obtain new where "snd (NC_split_delim alloc (Some s) delim (Some segs)) = Some (segs @ new)"
    and "[] \<notin> set new"
    using NC_split_delim_appends by blast
  moreover from this have "\<forall>seg \<in> set new. 0 < length seg"
    by auto
  ultimately show "\<exists>new. snd (NC_split_delim alloc (Some s) delim (Some segs)) = Some (segs @ new)
            \<and> (\<forall>seg \<in> set new. 0 < length seg)"
    by blast
qed

theorem split_rejects_empty_segments_witness:
  "fst (NC_split_delim (\<lambda>k. True) (Some ''a,,b'') (CHR '','') (Some [])) = NC_EURL"
proof -
  have "adjacent_delims (CHR '','') ''a,,b''"
    by simp
  then show ?thesis
    using split_rejects_empty_segments [of "CHR '',''" "''a,,b''" "\<lambda>k. True" "[]"]
    by simp
qed

text \<open>
  C6. For a non-empty string that neither starts nor ends with the delimiter and has no
  two delimiters next to each other, and when no allocation fails, the split succeeds and
  the segments it adds, written with one delimiter between neighbours, are the string.
\<close>

theorem split_validity:
  assumes "s \<noteq> []" and "hd s \<noteq> delim" and "last s \<noteq> delim"
    and "\<not> adjacent_delims delim s" and "\<forall>k. alloc k"
  shows "\<exists>new. NC_split_delim alloc (Some s) delim (Some segs) = (NC_NOERR, Some (segs @ new))
           \<and> interleave delim new = s"
proof -
  obtain c r where cr: "s = c # r"
    using assms(1) by (cases s) auto
  then have c: "c \<noteq> delim"
    using assms(2) by simp
  have "s = [] \<or> hd s \<noteq> delim"
    using assms(2) by simp
  then obtain new where
    new: "split_loop alloc 0 delim s segs = (NC_NOERR, segs @ new)"
      "s = interleave delim new \<or> s = interleave delim new @ [delim]"
    using split_loop_valid [OF assms(5) assms(4), of 0 segs] by blast
  have "s \<noteq> interleave delim new @ [delim]"
    using assms(3) by (metis last_snoc)
  then have "interleave delim new = s"
    using new(2) by simp
  moreover have "NC_split_delim alloc (Some s) delim (Some segs) = (NC_NOERR, Some (segs @ new))"
    using new(1) c unfolding cr NC_split_delim_Cons by simp
  ultimately show ?thesis
    by blast
qed

theorem split_validity_witness:
  "NC_split_delim (\<lambda>k. True) (Some ''ab,c'') (CHR '','') (Some []) = (NC_NOERR, Some [''ab'', ''c''])
   \<and> interleave (CHR '','') [''ab'', ''c''] = ''ab,c''"
proof -
  have h: "''ab,c'' \<noteq> []" "hd ''ab,c'' \<noteq> CHR '',''" "last ''ab,c'' \<noteq> CHR '',''"
    "\<not> adjacent_delims (CHR '','') ''ab,c''" "\<forall>k. (\<lambda>k::nat. True) k"
    by simp_all
  obtain new where
    new: "NC_split_delim (\<lambda>k. True) (Some ''ab,c'') (CHR '','') (Some [])
            = (NC_NOERR, Some ([] @ new))"
      "interleave (CHR '','') new = ''ab,c''"
    using split_validity [OF h, of "[]"] by blast
  have "NC_split_delim (\<lambda>k. True) (Some ''ab,c'') (CHR '','') (Some [])
          = (NC_NOERR, Some [''ab'', ''c''])"
    by (simp add: NC_split_delim_def split_loop.simps segment_end_def strlen_def nclistpush_def)
  then show ?thesis
    using new by simp
qed

text \<open>
  C9. A delimiter at the end is accepted. For every list of non-empty runs without the
  delimiter, the string made of the runs with one delimiter between neighbours, one
  delimiter at the end and possibly one at the start splits with success into exactly
  these runs, in order, when no allocation fails: the empty run after the last delimiter
  is dropped. Moreover a string that ends with the delimiter and has no two delimiters
  next to each other splits with success, and a string followed by one more delimiter
  gives the same segments as the string itself when that one splits with success and
  does not end with the delimiter.
\<close>

theorem split_trailing_delimiter:
  "((lead = [] \<or> (lead = [delim] \<and> ws \<noteq> []))
      \<and> (\<forall>w \<in> set ws. w \<noteq> [] \<and> delim \<notin> set w) \<and> (\<forall>k < length ws. alloc k) \<longrightarrow>
      NC_split_delim alloc (Some (lead @ interleave delim ws @ [delim])) delim (Some segs)
        = (NC_NOERR, Some (segs @ ws)))
   \<and> (\<not> adjacent_delims delim (s @ [delim]) \<and> (\<forall>k. alloc k) \<longrightarrow>
      fst (NC_split_delim alloc (Some (s @ [delim])) delim (Some segs)) = NC_NOERR)
   \<and> ((s = [] \<or> last s \<noteq> delim)
        \<and> NC_split_delim alloc (Some s) delim segments = (NC_NOERR, r) \<longrightarrow>
      NC_split_delim alloc (Some (s @ [delim])) delim segments = (NC_NOERR, r))"
proof (intro conjI impI)
  assume "(lead = [] \<or> (lead = [delim] \<and> ws \<noteq> []))
      \<and> (\<forall>w \<in> set ws. w \<noteq> [] \<and> delim \<notin> set w) \<and> (\<forall>k < length ws. alloc k)"
  then show "NC_split_delim alloc (Some (lead @ interleave delim ws @ [delim])) delim (Some segs)
        = (NC_NOERR, Some (segs @ ws))"
    using NC_split_delim_runs_trailing [of lead delim ws alloc segs] by blast
next
  assume "\<not> adjacent_delims delim (s @ [delim]) \<and> (\<forall>k. alloc k)"
  then show "fst (NC_split_delim alloc (Some (s @ [delim])) delim (Some segs)) = NC_NOERR"
    using NC_split_delim_succeeds [of delim "s @ [delim]" alloc segs] by blast
next
  assume "(s = [] \<or> last s \<noteq> delim)
        \<and> NC_split_delim alloc (Some s) delim segments = (NC_NOERR, r)"
  then have last: "s = [] \<or> last s \<noteq> delim"
    and ok: "NC_split_delim alloc (Some s) delim segments = (NC_NOERR, r)"
    by simp_all
  show "NC_split_delim alloc (Some (s @ [delim])) delim segments = (NC_NOERR, r)"
  proof (cases segments)
    case None
    then show ?thesis
      using ok by (simp add: NC_split_delim_def)
  next
    case (Some segs)
    show ?thesis
    proof (cases s)
      case Nil
      then have "r = Some segs"
        using ok Some by (simp add: NC_split_delim_def)
      then show ?thesis
        using Nil Some by (simp add: NC_split_delim_def)
    next
      case (Cons c t)
      then have lst: "last (c # t) \<noteq> delim"
        using last by simp
      let ?p = "if c = delim then t else c # t"
      have p: "?p \<noteq> []" "last ?p \<noteq> delim"
        using lst by (auto split: if_splits)
      obtain r' where r: "r = Some r'"
        and loop: "split_loop alloc 0 delim ?p segs = (NC_NOERR, r')"
        using ok unfolding Cons Some NC_split_delim_Cons
        by (cases "split_loop alloc 0 delim ?p segs") auto
      have "split_loop alloc 0 delim (?p @ [delim]) segs = (NC_NOERR, r')"
        using p loop by (rule split_loop_trailing)
      moreover have "(if c = delim then t @ [delim] else c # t @ [delim]) = ?p @ [delim]"
        by simp
      ultimately show ?thesis
        unfolding Cons Some r append_Cons NC_split_delim_Cons by (simp only: fst_conv snd_conv)
    qed
  qed
qed

theorem split_trailing_delimiter_witness:
  "NC_split_delim (\<lambda>k. True) (Some ''a,'') (CHR '','') (Some []) = (NC_NOERR, Some [''a''])
   \<and> NC_split_delim (\<lambda>k. True) (Some ''a,bc,d,'') (CHR '','') (Some [''x''])
       = (NC_NOERR, Some [''x'', ''a'', ''bc'', ''d''])
   \<and> NC_split_delim (\<lambda>k. True) (Some '',a,b,'') (CHR '','') (Some [])
       = (NC_NOERR, Some [''a'', ''b''])"
proof -
  have 1: "NC_split_delim (\<lambda>k. True) (Some ''a,'') (CHR '','') (Some []) = (NC_NOERR, Some [''a''])"
    using split_trailing_delimiter [where lead = "[]" and delim = "CHR '',''" and ws = "[''a'']"
        and alloc = "\<lambda>k. True" and segs = "[]" and s = "[]" and segments = None and r = None]
    by simp
  have 2: "NC_split_delim (\<lambda>k. True) (Some ''a,bc,d,'') (CHR '','') (Some [''x''])
       = (NC_NOERR, Some [''x'', ''a'', ''bc'', ''d''])"
    using split_trailing_delimiter [where lead = "[]" and delim = "CHR '',''"
        and ws = "[''a'', ''bc'', ''d'']"
        and alloc = "\<lambda>k. True" and segs = "[''x'']" and s = "[]" and segments = None and r = None]
    by simp
  have 3: "NC_split_delim (\<lambda>k. True) (Some '',a,b,'') (CHR '','') (Some [])
       = (NC_NOERR, Some [''a'', ''b''])"
    using split_trailing_delimiter [where lead = "'',''" and delim = "CHR '',''"
        and ws = "[''a'', ''b'']"
        and alloc = "\<lambda>k. True" and segs = "[]" and s = "[]" and segments = None and r = None]
    by simp
  from 1 2 3 show ?thesis
    by blast
qed

subsection \<open>Failure and the caller's data\<close>

text \<open>
  C5, as stated: a failed split leaves the caller's segment list as it was. The split of
  \<open>a,,b\<close> fails with \<^verbatim>\<open>NC_EURL\<close> after the segment \<open>a\<close> has been pushed, and the
  segment stays in the list.
\<close>

theorem split_failure_keeps_segments_counterexample:
  "fst (NC_split_delim (\<lambda>k. True) (Some ''a,,b'') (CHR '','') (Some [])) = NC_EURL
   \<and> snd (NC_split_delim (\<lambda>k. True) (Some ''a,,b'') (CHR '','') (Some [])) = Some [''a'']
   \<and> snd (NC_split_delim (\<lambda>k. True) (Some ''a,,b'') (CHR '','') (Some [])) \<noteq> Some []"
  by (simp add: NC_split_delim_def split_loop.simps segment_end_def strlen_def nclistpush_def)

text \<open>
  C5, amended. When \<^verbatim>\<open>NC_getmodelist\<close> or \<^verbatim>\<open>NC_join\<close> fails, the caller's output
  parameter is as it was before the call; when their allocation fails the escapers
  return NULL. \<^verbatim>\<open>NC_split_delim\<close> only appends, and a failed call leaves in the caller's
  list its previous contents followed by the segments parsed before the failure: all the
  runs before the empty one when the status is \<^verbatim>\<open>NC_EURL\<close>, and the first \<open>n\<close> runs when
  the allocation for run \<open>n\<close> (counted from 0) is the first to fail and the status is
  \<^verbatim>\<open>NC_ENOMEM\<close>.
\<close>

theorem failure_leaves_output_parameters:
  "(fst (NC_getmodelist alloc modestr modelistp) \<noteq> NC_NOERR
      \<longrightarrow> snd (NC_getmodelist alloc modestr modelistp) = modelistp)
   \<and> (fst (NC_join alloc segments pathp) \<noteq> NC_NOERR
      \<longrightarrow> snd (NC_join alloc segments pathp) = pathp)
   \<and> (\<not> alloc 0 \<longrightarrow> NC_backslashEscape alloc s = None \<and> NC_entityescape alloc s = None
         \<and> NC_backslashUnescape alloc esc = Inr None)
   \<and> (\<exists>new. snd (NC_split_delim alloc arg delim (Some segs)) = Some (segs @ new))
   \<and> ((lead = [] \<or> (lead = [delim] \<and> ws \<noteq> []))
        \<and> (\<forall>w \<in> set ws. w \<noteq> [] \<and> delim \<notin> set w) \<and> (\<forall>k < length ws. alloc k) \<longrightarrow>
      NC_split_delim alloc (Some (lead @ interleave delim ws @ delim # delim # rest)) delim
          (Some segs)
        = (NC_EURL, Some (segs @ ws)))
   \<and> ((lead = [] \<or> (lead = [delim] \<and> ws \<noteq> []))
        \<and> (\<forall>w \<in> set ws. w \<noteq> [] \<and> delim \<notin> set w)
        \<and> n < length ws \<and> (\<forall>k < n. alloc k) \<and> \<not> alloc n \<and> (t = [] \<or> hd t = delim) \<longrightarrow>
      NC_split_delim alloc (Some (lead @ interleave delim ws @ t)) delim (Some segs)
        = (NC_ENOMEM, Some (segs @ take n ws)))"
proof -
  have 1: "fst (NC_getmodelist alloc modestr modelistp) \<noteq> NC_NOERR
      \<longrightarrow> snd (NC_getmodelist alloc modestr modelistp) = modelistp"
    by (simp add: NC_getmodelist_def split: prod.splits option.splits)
  have 2: "fst (NC_join alloc segments pathp) \<noteq> NC_NOERR
      \<longrightarrow> snd (NC_join alloc segments pathp) = pathp"
    by (simp add: NC_join_def Let_def split: option.splits)
  have 3: "\<not> alloc 0 \<longrightarrow> NC_backslashEscape alloc s = None \<and> NC_entityescape alloc s = None
         \<and> NC_backslashUnescape alloc esc = Inr None"
    by (simp add: NC_backslashEscape_def NC_entityescape_def NC_backslashUnescape_def
        split: option.splits)
  have 4: "\<exists>new. snd (NC_split_delim alloc arg delim (Some segs)) = Some (segs @ new)"
    using NC_split_delim_appends [of alloc arg delim segs] by blast
  have 5: "(lead = [] \<or> (lead = [delim] \<and> ws \<noteq> []))
        \<and> (\<forall>w \<in> set ws. w \<noteq> [] \<and> delim \<notin> set w) \<and> (\<forall>k < length ws. alloc k) \<longrightarrow>
      NC_split_delim alloc (Some (lead @ interleave delim ws @ delim # delim # rest)) delim
          (Some segs)
        = (NC_EURL, Some (segs @ ws))"
    using NC_split_delim_runs_empty [of lead delim ws alloc rest segs] by blast
  have 6: "(lead = [] \<or> (lead = [delim] \<and> ws \<noteq> []))
        \<and> (\<forall>w \<in> set ws. w \<noteq> [] \<and> delim \<notin> set w)
        \<and> n < length ws \<and> (\<forall>k < n. alloc k) \<and> \<not> alloc n \<and> (t = [] \<or> hd t = delim) \<longrightarrow>
      NC_split_delim alloc (Some (lead @ interleave delim ws @ t)) delim (Some segs)
        = (NC_ENOMEM, Some (segs @ take n ws))"
    using NC_split_delim_runs_oom [of lead delim ws n alloc t segs] by blast
  from 1 2 3 4 5 6 show ?thesis
    by blast
qed

theorem failure_leaves_output_parameters_witness:
  "fst (NC_getmodelist (\<lambda>k. True) (Some ''a,,b'') (Some None)) = NC_EURL
   \<and> snd (NC_getmodelist (\<lambda>k. True) (Some ''a,,b'') (Some None)) = Some None
   \<and> fst (NC_join (\<lambda>k. False) (Some [''a'']) (Some None)) = NC_ENOMEM
   \<and> snd (NC_join (\<lambda>k. False) (Some [''a'']) (Some None)) = Some None
   \<and> NC_backslashEscape (\<lambda>k. False) ''a'' = None
   \<and> NC_split_delim (\<lambda>k. True) (Some ''a,bc,,d'') (CHR '','') (Some [''x''])
       = (NC_EURL, Some [''x'', ''a'', ''bc''])
   \<and> NC_split_delim (\<lambda>k. k < 2) (Some ''a,bc,d,e'') (CHR '','') (Some [''x''])
       = (NC_ENOMEM, Some [''x'', ''a'', ''bc''])"
proof -
  have g: "fst (NC_getmodelist (\<lambda>k. True) (Some ''a,,b'') (Some None)) = NC_EURL"
    by (simp add: NC_getmodelist_def NC_split_delim_def split_loop.simps segment_end_def
        strlen_def nclistpush_def nclistnew_def)
  have j: "fst (NC_join (\<lambda>k. False) (Some [''a'']) (Some None)) = NC_ENOMEM"
    by (simp add: NC_join_def)
  note t1 = failure_leaves_output_parameters
    [where alloc = "\<lambda>k. True" and modestr = "Some ''a,,b''" and modelistp = "Some None"
      and segments = "Some [''a'']" and pathp = "Some None" and s = "''a''" and esc = None
      and arg = None and delim = "CHR '',''" and segs = "[''x'']" and lead = "[]"
      and ws = "[''a'', ''bc'']" and rest = "''d''" and n = 0 and t = "[]"]
  note t2 = failure_leaves_output_parameters
    [where alloc = "\<lambda>k. k < 2" and modestr = None and modelistp = None
      and segments = None and pathp = None and s = "''a''" and esc = None
      and arg = None and delim = "CHR '',''" and segs = "[''x'']" and lead = "[]"
      and ws = "[''a'', ''bc'', ''d'', ''e'']" and rest = "[]" and n = 2 and t = "[]"]
  note t3 = failure_leaves_output_parameters
    [where alloc = "\<lambda>k. False" and modestr = None and modelistp = None
      and segments = "Some [''a'']" and pathp = "Some None" and s = "''a''" and esc = None
      and arg = None and delim = "CHR '',''" and segs = "[]" and lead = "[]"
      and ws = "[]" and rest = "[]" and n = 0 and t = "[]"]
  have "snd (NC_getmodelist (\<lambda>k. True) (Some ''a,,b'') (Some None)) = Some None"
    using t1 g by simp
  moreover have "snd (NC_join (\<lambda>k. False) (Some [''a'']) (Some None)) = Some None"
    using t3 j by simp
  moreover have "NC_backslashEscape (\<lambda>k. False) ''a'' = None"
    using t3 by simp
  moreover have "NC_split_delim (\<lambda>k. True) (Some ''a,bc,,d'') (CHR '','') (Some [''x''])
       = (NC_EURL, Some [''x'', ''a'', ''bc''])"
    using t1 by simp
  moreover have "NC_split_delim (\<lambda>k. k < 2) (Some ''a,bc,d,e'') (CHR '','') (Some [''x''])
       = (NC_ENOMEM, Some [''x'', ''a'', ''bc''])"
    using t2 by simp
  ultimately show ?thesis
    using g j by blast
qed

subsection \<open>The joiner\<close>

lemma join_loop_acc:
  "join_loop segs buf =
     buf @ concat (map (\<lambda>seg. if take 1 seg = ''/'' then seg else CHR ''/'' # seg) segs)"
proof (induction segs arbitrary: buf)
  case Nil
  show ?case by simp
next
  case (Cons seg rest)
  have "(first_byte seg \<noteq> CHR ''/'') = (take 1 seg \<noteq> ''/'')"
    by (cases seg) (simp_all add: first_byte_def)
  then show ?case
    by (simp add: Cons.IH ncbytescat_def)
qed

text \<open>
  C7. A NULL segment list gives \<^verbatim>\<open>NC_EINVAL\<close>. When the buffer is allocated, the empty
  list gives the path \<open>/\<close>, and a non-empty list gives its segments in order, each one
  with a \<open>/\<close> put before it exactly when it does not start with \<open>/\<close>; no segment is
  rejected.
\<close>

theorem join_canonical_form:
  "NC_join alloc None pathp = (NC_EINVAL, pathp)
   \<and> (alloc 0 \<longrightarrow> NC_join alloc (Some []) (Some old) = (NC_NOERR, Some (Some ''/'')))
   \<and> (alloc 0 \<and> segs \<noteq> [] \<longrightarrow>
        NC_join alloc (Some segs) (Some old) =
          (NC_NOERR,
           Some (Some (concat (map (\<lambda>seg. if take 1 seg = ''/'' then seg else CHR ''/'' # seg)
                                segs)))))"
  by (simp add: NC_join_def nclistlength_def ncbytescat_def ncbytesextract_def join_loop_acc)

theorem join_canonical_form_witness:
  "NC_join (\<lambda>k. True) (Some [''a'', ''b'']) (Some None) = (NC_NOERR, Some (Some ''/a/b''))
   \<and> NC_join (\<lambda>k. True) (Some [''/a'']) (Some None) = (NC_NOERR, Some (Some ''/a''))
   \<and> NC_join (\<lambda>k. True) (Some []) (Some None) = (NC_NOERR, Some (Some ''/''))
   \<and> NC_join (\<lambda>k. True) None (Some None) = (NC_EINVAL, Some None)"
proof -
  note a = join_canonical_form [of "\<lambda>k. True" "Some None" None "[''a'', ''b'']"]
  note b = join_canonical_form [of "\<lambda>k. True" "Some None" None "[''/a'']"]
  have "NC_join (\<lambda>k. True) (Some [''a'', ''b'']) (Some None) = (NC_NOERR, Some (Some ''/a/b''))"
    using a by simp
  moreover have "NC_join (\<lambda>k. True) (Some [''/a'']) (Some None) = (NC_NOERR, Some (Some ''/a''))"
    using b by simp
  moreover have "NC_join (\<lambda>k. True) (Some []) (Some None) = (NC_NOERR, Some (Some ''/''))"
    using a by simp
  moreover have "NC_join (\<lambda>k. True) None (Some None) = (NC_EINVAL, Some None)"
    using a by simp
  ultimately show ?thesis
    by blast
qed

subsection \<open>The mode-tag query\<close>

lemma strcasecmp_zero:
  "(strcasecmp s t = 0) = (map tolower s = map tolower t)"
  by (induction s t rule: strcasecmp.induct) auto

lemma testmode_loop_found:
  "testmode_loop modelist tag =
     (if \<exists>mode \<in> set modelist. map tolower mode = map tolower tag then 1 else 0)"
  by (induction modelist) (auto simp: strcasecmp_zero)

lemma NC_split_delim_list:
  "\<exists>l. snd (NC_split_delim alloc arg d (Some segs)) = Some l"
  using NC_split_delim_appends [of alloc arg d segs] by blast

lemma NC_getmodelist_split:
  "NC_getmodelist alloc (Some v) (Some old) =
     (if fst (NC_split_delim alloc (Some v) (CHR '','') (Some [])) = NC_NOERR
      then (NC_NOERR, Some (snd (NC_split_delim alloc (Some v) (CHR '','') (Some []))))
      else (fst (NC_split_delim alloc (Some v) (CHR '','') (Some [])), Some old))"
proof (cases "v = []")
  case True
  then show ?thesis
    by (simp add: NC_getmodelist_def NC_split_delim_def nclistnew_def strlen_def)
next
  case False
  then show ?thesis
    by (simp add: NC_getmodelist_def nclistnew_def strlen_def split: prod.splits)
qed

lemma NC_testmode_eq:
  "NC_testmode alloc uri tag =
     (case uri ''mode'' of
        None \<Rightarrow> 0
      | Some v \<Rightarrow>
          (case NC_split_delim alloc (Some v) (CHR '','') (Some []) of
             (stat, segs) \<Rightarrow>
               if stat = NC_NOERR \<and> (\<exists>seg \<in> set (the segs). map tolower seg = map tolower tag)
               then 1 else 0))"
proof (cases "uri ''mode''")
  case None
  then show ?thesis
    by (simp add: NC_testmode_def ncurifragmentlookup_def)
next
  case (Some v)
  obtain l where l: "snd (NC_split_delim alloc (Some v) (CHR '','') (Some [])) = Some l"
    using NC_split_delim_list by blast
  show ?thesis
    using Some l
    by (cases "NC_split_delim alloc (Some v) (CHR '','') (Some [])")
      (simp add: NC_testmode_def ncurifragmentlookup_def NC_getmodelist_split testmode_loop_found)
qed

text \<open>
  C4. \<^verbatim>\<open>NC_testmode\<close> returns 1 exactly when the fragment store maps \<open>mode\<close> to a
  value that \<^verbatim>\<open>NC_split_delim\<close> splits on commas with success and one of the segments
  equals the tag once both are put in lower case; it returns 0 or 1; it returns 0 when the
  key is absent, and 0 when the split of the value fails.
\<close>

theorem testmode_membership:
  "(NC_testmode alloc uri tag = 1) =
     (\<exists>v segs. uri ''mode'' = Some v
        \<and> NC_split_delim alloc (Some v) (CHR '','') (Some []) = (NC_NOERR, Some segs)
        \<and> (\<exists>seg \<in> set segs. map tolower seg = map tolower tag))
   \<and> (NC_testmode alloc uri tag = 0 \<or> NC_testmode alloc uri tag = 1)
   \<and> (uri ''mode'' = None \<longrightarrow> NC_testmode alloc uri tag = 0)
   \<and> (\<forall>v. uri ''mode'' = Some v
          \<and> fst (NC_split_delim alloc (Some v) (CHR '','') (Some [])) \<noteq> NC_NOERR
        \<longrightarrow> NC_testmode alloc uri tag = 0)"
proof -
  have 1: "(NC_testmode alloc uri tag = 1) =
     (\<exists>v segs. uri ''mode'' = Some v
        \<and> NC_split_delim alloc (Some v) (CHR '','') (Some []) = (NC_NOERR, Some segs)
        \<and> (\<exists>seg \<in> set segs. map tolower seg = map tolower tag))"
  proof (cases "uri ''mode''")
    case None
    then show ?thesis
      by (simp add: NC_testmode_eq)
  next
    case (Some v)
    obtain stat l where r: "NC_split_delim alloc (Some v) (CHR '','') (Some []) = (stat, Some l)"
      using NC_split_delim_list [of alloc "Some v" "CHR '',''" "[]"]
      by (cases "NC_split_delim alloc (Some v) (CHR '','') (Some [])") auto
    show ?thesis
      using Some r by (auto simp: NC_testmode_eq)
  qed
  have 2: "NC_testmode alloc uri tag = 0 \<or> NC_testmode alloc uri tag = 1"
    by (simp add: NC_testmode_eq split: option.splits prod.splits)
  have 3: "uri ''mode'' = None \<longrightarrow> NC_testmode alloc uri tag = 0"
    by (simp add: NC_testmode_eq)
  have 4: "\<forall>v. uri ''mode'' = Some v
          \<and> fst (NC_split_delim alloc (Some v) (CHR '','') (Some [])) \<noteq> NC_NOERR
        \<longrightarrow> NC_testmode alloc uri tag = 0"
    by (auto simp: NC_testmode_eq split: prod.splits)
  from 1 2 3 4 show ?thesis
    by blast
qed

theorem testmode_membership_witness:
  "NC_testmode (\<lambda>k. True) [''mode'' \<mapsto> ''dap4,bytes''] ''DAP4'' = 1
   \<and> NC_testmode (\<lambda>k. True) [''mode'' \<mapsto> ''dap4,,bytes''] ''dap4'' = 0
   \<and> NC_testmode (\<lambda>k. True) Map.empty ''dap4'' = 0"
proof -
  have s1: "NC_split_delim (\<lambda>k. True) (Some ''dap4,bytes'') (CHR '','') (Some [])
              = (NC_NOERR, Some [''dap4'', ''bytes''])"
    by (simp add: NC_split_delim_def split_loop.simps segment_end_def strlen_def nclistpush_def)
  have s2: "fst (NC_split_delim (\<lambda>k. True) (Some ''dap4,,bytes'') (CHR '','') (Some []))
              \<noteq> NC_NOERR"
    by (simp add: NC_split_delim_def split_loop.simps segment_end_def strlen_def nclistpush_def)
  have m: "map tolower ''dap4'' = map tolower ''DAP4''"
    by code_simp
  have "NC_testmode (\<lambda>k. True) [''mode'' \<mapsto> ''dap4,bytes''] ''DAP4'' = 1"
    using testmode_membership [of "\<lambda>k. True" "[''mode'' \<mapsto> ''dap4,bytes'']" "''DAP4''"] s1 m
    by auto
  moreover have "NC_testmode (\<lambda>k. True) [''mode'' \<mapsto> ''dap4,,bytes''] ''dap4'' = 0"
    using testmode_membership [of "\<lambda>k. True" "[''mode'' \<mapsto> ''dap4,,bytes'']" "''dap4''"] s2
    by auto
  moreover have "NC_testmode (\<lambda>k. True) Map.empty ''dap4'' = 0"
    using testmode_membership [of "\<lambda>k. True" Map.empty "''dap4''"]
    by simp
  ultimately show ?thesis
    by blast
qed

end
